theory Spec2Isabelle
  imports
    Complex_Main
    "HOL-Library.Multiset"
    "HOL-Library.Product_Lexorder"
    "HOL-Library.List_Lexorder"
    "HOL-Library.Char_ord"
begin

section \<open>Employee sentiment notebook: data model\<close>

text \<open>
  The notebook \<^verbatim>\<open>Employee.ipynb\<close> works on one pandas data frame \<^verbatim>\<open>df\<close>. A row of
  it is a message. The columns read from the input file are \<^verbatim>\<open>from\<close>, \<^verbatim>\<open>date\<close> and
  \<^verbatim>\<open>body\<close>; each of them may be missing (NaN / NaT), which is \<open>None\<close> here.
  \<^item> \<open>sender\<close> is the column \<^verbatim>\<open>from\<close> (copied to \<^verbatim>\<open>employee\<close> by the notebook);
  \<^item> \<open>date\<close> is the column \<^verbatim>\<open>date\<close> after \<^verbatim>\<open>pd.to_datetime(..., errors='coerce')\<close>:
    a timestamp in nanoseconds since the epoch, or \<open>None\<close> for NaT (unparsable);
  \<^item> \<open>body\<close> is the message text, a string when the cell holds one;
  \<^item> \<open>sentiment_label\<close> is the value that \<^verbatim>\<open>get_sentiment\<close> returned for the body. The
    classifier itself (VADER) is outside the model.
\<close>

datatype label = Positive | Negative | Neutral

record message =
  sender :: "string option"
  date :: "int option"
  body :: "string option"
  sentiment_label :: label

subsection \<open>Timestamps, day differences and months\<close>

definition ns_per_day :: int where
  "ns_per_day = 86400000000000"

text \<open>
  \<^verbatim>\<open>a - b\<close> on two timestamps is a Timedelta, or NaT as soon as one side is NaT.
\<close>

fun ts_sub :: "int option \<Rightarrow> int option \<Rightarrow> int option" where
  "ts_sub (Some a) (Some b) = Some (a - b)"
| "ts_sub _ _ = None"

text \<open>
  \<^verbatim>\<open>.days\<close> of a Timedelta is its number of whole days, rounded towards minus infinity;
  \<^verbatim>\<open>.days\<close> of NaT is NaN, here \<open>None\<close>.
\<close>

definition days :: "int option \<Rightarrow> int option" where
  "days td = map_option (\<lambda>v. v div ns_per_day) td"

text \<open>
  \<^verbatim>\<open>dt.to_period('M')\<close>: the month of a timestamp, as the number of months since
  January 1970 (the ordinal of a monthly pandas Period), computed from the day number in
  the proleptic Gregorian calendar.
\<close>

definition to_period_M :: "int \<Rightarrow> int" where
  "to_period_M t =
     (let z = t div ns_per_day + 719468;
          era = z div 146097;
          doe = z mod 146097;
          yoe = (doe - doe div 1460 + doe div 36524 - doe div 146096) div 365;
          doy = doe - (365 * yoe + yoe div 4 - yoe div 100);
          mp = (5 * doy + 2) div 153;
          m = (if mp < 10 then mp + 3 else mp - 9);
          y = yoe + era * 400 + (if m \<le> 2 then 1 else 0)
      in (y - 1970) * 12 + (m - 1))"

text \<open>The derived columns \<^verbatim>\<open>df['month']\<close> and \<^verbatim>\<open>df['score']\<close>.\<close>

definition df_month :: "message \<Rightarrow> int option" where
  "df_month r = map_option to_period_M (date r)"

fun score_mapper :: "label \<Rightarrow> int" where
  "score_mapper Positive = 1"
| "score_mapper Negative = - 1"
| "score_mapper Neutral = 0"

definition df_score :: "message \<Rightarrow> int" where
  "df_score r = score_mapper (sentiment_label r)"

text \<open>
  \<^verbatim>\<open>df['msg_length'] = df['body'].str.len()\<close> is computed on the whole column. The
  \<^verbatim>\<open>.str\<close> accessor exists on a column of strings only: a column in which every cell
  is missing is read as a column of floats, and the accessor raises AttributeError. With
  a string in the column (or with no row at all, an empty column of objects) the result
  holds the length of each string and NaN, here \<open>None\<close>, for each missing cell.
\<close>

datatype error = AttributeError

definition msg_length :: "message list \<Rightarrow> error + nat option list" where
  "msg_length df =
     (if df \<noteq> [] \<and> (\<forall>r\<in>set df. body r = None) then Inl AttributeError
      else Inr (map (\<lambda>r. map_option length (body r)) df))"

subsection \<open>Group-by\<close>

text \<open>
  \<^verbatim>\<open>df.groupby(keys)\<close>: one pass over the rows puts each row at the end of the group of
  its key; a row with a missing key component belongs to no group (\<^verbatim>\<open>dropna=True\<close>);
  the groups come out sorted by key (\<^verbatim>\<open>sort=True\<close>).
\<close>

fun insert_group :: "'k \<Rightarrow> 'r \<Rightarrow> ('k \<times> 'r list) list \<Rightarrow> ('k \<times> 'r list) list" where
  "insert_group k r [] = [(k, [r])]"
| "insert_group k r ((k', g) # gs) =
     (if k = k' then (k', g @ [r]) # gs else (k', g) # insert_group k r gs)"

definition group_step :: "('r \<Rightarrow> 'k option) \<Rightarrow> 'r \<Rightarrow> ('k \<times> 'r list) list \<Rightarrow> ('k \<times> 'r list) list" where
  "group_step key r acc = (case key r of None \<Rightarrow> acc | Some k \<Rightarrow> insert_group k r acc)"

definition groupby :: "('r \<Rightarrow> ('k::linorder) option) \<Rightarrow> 'r list \<Rightarrow> ('k \<times> 'r list) list" where
  "groupby key rs = sort_key fst (fold (group_step key) rs [])"

section \<open>Monthly sentiment score\<close>

record monthly_score =
  employee :: string
  month :: int
  score :: int

definition employee_month :: "message \<Rightarrow> (string \<times> int) option" where
  "employee_month r =
     (case (sender r, df_month r) of (Some e, Some m) \<Rightarrow> Some (e, m) | _ \<Rightarrow> None)"

text \<open>
  \<^verbatim>\<open>monthly_scores = df.groupby(['employee', 'month'])['score'].sum().reset_index()\<close>
\<close>

definition monthly_scores :: "message list \<Rightarrow> monthly_score list" where
  "monthly_scores rs =
     map (\<lambda>(k, g). \<lparr>employee = fst k, month = snd k, score = sum_list (map df_score g)\<rparr>)
       (groupby employee_month rs)"

section \<open>Feature table of the regression\<close>

text \<open>
  \<^verbatim>\<open>features = df.groupby(['employee','month']).agg({'score': 'sum',
     'msg_length': 'mean', 'body': 'count'})\<close>, with the columns renamed to
  \<^verbatim>\<open>avg_length\<close> and \<^verbatim>\<open>msg_count\<close>. \<^verbatim>\<open>mean\<close> skips missing values and is NaN (here
  \<open>None\<close>) when every value is missing; \<^verbatim>\<open>count\<close> counts the values that are present.
  The mean is the exact quotient: the rounding of the floating-point division is not
  modelled. \<open>features_of\<close> is the aggregation, on rows that carry their
  \<^verbatim>\<open>msg_length\<close>; \<open>features\<close> is the cell: the column first, which may raise, then the
  aggregation.
\<close>

record feature_row = monthly_score +
  avg_length :: "rat option"
  msg_count :: nat

definition mean_skipna :: "nat option list \<Rightarrow> rat option" where
  "mean_skipna xs =
     (let vs = List.map_filter id xs
      in if vs = [] then None else Some (of_nat (sum_list vs) / of_nat (length vs)))"

definition features_of :: "(message \<times> nat option) list \<Rightarrow> feature_row list" where
  "features_of rows =
     map (\<lambda>(k, g). \<lparr>employee = fst k, month = snd k,
                    score = sum_list (map (\<lambda>p. df_score (fst p)) g),
                    avg_length = mean_skipna (map snd g),
                    msg_count = length (filter (\<lambda>p. body (fst p) \<noteq> None) g)\<rparr>)
       (groupby (\<lambda>p. employee_month (fst p)) rows)"

definition features :: "message list \<Rightarrow> error + feature_row list" where
  "features df =
     (case msg_length df of
        Inl e \<Rightarrow> Inl e
      | Inr col \<Rightarrow> Inr (features_of (zip df col)))"

section \<open>Employee ranking\<close>

text \<open>
  \<^verbatim>\<open>sort_values(['month','score','employee'], ascending=[True, False, True])\<close> and
  \<^verbatim>\<open>ascending=[True, True, True]\<close>: a sort on the lexicographic key; a descending
  integer column is an ascending negated one.
\<close>

definition key_pos :: "monthly_score \<Rightarrow> int \<times> int \<times> string" where
  "key_pos x = (month x, - score x, employee x)"

definition key_neg :: "monthly_score \<Rightarrow> int \<times> int \<times> string" where
  "key_neg x = (month x, score x, employee x)"

definition top_pos :: "monthly_score list \<Rightarrow> monthly_score list" where
  "top_pos ms = sort_key key_pos ms"

definition top_neg :: "monthly_score list \<Rightarrow> monthly_score list" where
  "top_neg ms = sort_key key_neg ms"

text \<open>
  \<^verbatim>\<open>groupby(key).head(n)\<close> keeps, in the order of the frame, every row that has fewer
  than \<open>n\<close> rows of its own group before it. \<open>seen\<close> holds the keys of the rows passed.
\<close>

fun head_scan :: "nat \<Rightarrow> ('r \<Rightarrow> 'k) \<Rightarrow> 'k list \<Rightarrow> 'r list \<Rightarrow> 'r list" where
  "head_scan n key seen [] = []"
| "head_scan n key seen (r # rs) =
     (if count_list seen (key r) < n then r # head_scan n key (key r # seen) rs
      else head_scan n key (key r # seen) rs)"

definition groupby_head :: "nat \<Rightarrow> ('r \<Rightarrow> 'k) \<Rightarrow> 'r list \<Rightarrow> 'r list" where
  "groupby_head n key rs = head_scan n key [] rs"

definition top_3_pos :: "monthly_score list \<Rightarrow> monthly_score list" where
  "top_3_pos ms = groupby_head 3 month (top_pos ms)"

definition top_3_neg :: "monthly_score list \<Rightarrow> monthly_score list" where
  "top_3_neg ms = groupby_head 3 month (top_neg ms)"

section \<open>Flight risk identification\<close>

text \<open>
  \<^verbatim>\<open>df_neg\<close>: the rows of \<^verbatim>\<open>df\<close> with \<^verbatim>\<open>df['sentiment_label'] == 'Negative'\<close>, reduced
  to the columns \<^verbatim>\<open>employee\<close> and \<^verbatim>\<open>date\<close>, then \<^verbatim>\<open>.sort_values(['employee','date'])\<close>.
  The rows are pairs (employee, date). \<^verbatim>\<open>sort_values\<close> puts missing values last in each
  column (\<^verbatim>\<open>na_position='last'\<close>): the key of a present value is \<open>(0, v)\<close>, the key of a
  missing one is \<open>(1, d)\<close> for a fixed \<open>d\<close>.
\<close>

fun na_last :: "'a \<Rightarrow> 'a option \<Rightarrow> nat \<times> 'a" where
  "na_last d (Some v) = (0, v)"
| "na_last d None = (1, d)"

definition neg_key :: "string option \<times> int option \<Rightarrow> (nat \<times> string) \<times> (nat \<times> int)" where
  "neg_key p = (na_last [] (fst p), na_last 0 (snd p))"

definition df_neg :: "message list \<Rightarrow> (string option \<times> int option) list" where
  "df_neg rs =
     sort_key neg_key (map (\<lambda>r. (sender r, date r)) (filter (\<lambda>r. sentiment_label r = Negative) rs))"

text \<open>
  The test of the generator expression,
  \<^verbatim>\<open>(dates[i] - d).days <= 30 and (dates[i] - d).days >= 0\<close>.
  A comparison with NaN is false. The literal 30 is the argument \<open>window_days\<close>.
\<close>

definition in_window :: "int \<Rightarrow> int option \<Rightarrow> int option \<Rightarrow> bool" where
  "in_window window_days ti d =
     (case days (ts_sub ti d) of
        None \<Rightarrow> False
      | Some n \<Rightarrow> n \<le> window_days \<and> n \<ge> 0)"

text \<open>The Python slice \<^verbatim>\<open>xs[a:b]\<close> for \<open>0 \<le> a\<close> and \<open>0 \<le> b\<close>.\<close>

definition slice :: "nat \<Rightarrow> nat \<Rightarrow> 'a list \<Rightarrow> 'a list" where
  "slice a b xs = take (b - a) (drop a xs)"

text \<open>
  \<^verbatim>\<open>count = sum(... for d in dates[max(0,i-10):i+1])\<close>, for an index \<open>i\<close> of \<open>dates\<close>.
\<close>

definition window_count :: "int \<Rightarrow> int option list \<Rightarrow> nat \<Rightarrow> nat" where
  "window_count window_days dates i =
     length (filter (in_window window_days (dates ! i))
       (slice (nat (max 0 (int i - 10))) (i + 1) dates))"

text \<open>
  The inner loop \<^verbatim>\<open>for i in range(len(dates))\<close> with its \<^verbatim>\<open>break\<close>: the result says
  whether the employee was appended. The literal 4 is the argument \<open>threshold\<close>.
\<close>

fun scan :: "int \<Rightarrow> int \<Rightarrow> int option list \<Rightarrow> nat list \<Rightarrow> bool" where
  "scan window_days threshold dates [] = False"
| "scan window_days threshold dates (i # is) =
     (if int (window_count window_days dates i) \<ge> threshold then True
      else scan window_days threshold dates is)"

definition flagged :: "int \<Rightarrow> int \<Rightarrow> int option list \<Rightarrow> bool" where
  "flagged window_days threshold dates =
     scan window_days threshold dates [0..<length dates]"

text \<open>
  The outer loop \<^verbatim>\<open>for emp, group in df_neg.groupby('employee')\<close> builds the list
  \<^verbatim>\<open>flight_risk\<close>; the final \<^verbatim>\<open>list(set(flight_risk))\<close> keeps its set of elements, in
  no specified order. \<open>detect\<close> has the two literals as arguments, as the operation of
  that name in the specification has; \<open>flight_risk\<close> is what the notebook computes, with
  30 and 4.
\<close>

definition flight_risk_loop :: "int \<Rightarrow> int \<Rightarrow> message list \<Rightarrow> string list" where
  "flight_risk_loop window_days threshold rs =
     map fst (filter (\<lambda>(emp, group). flagged window_days threshold (map snd group))
       (groupby fst (df_neg rs)))"

definition detect :: "message list \<Rightarrow> int \<Rightarrow> int \<Rightarrow> string set" where
  "detect rs window_days threshold = set (flight_risk_loop window_days threshold rs)"

definition flight_risk :: "message list \<Rightarrow> string set" where
  "flight_risk rs = detect rs 30 4"

section \<open>Specification of the flight-risk flag\<close>

text \<open>
  The timestamps of the Negative messages of employee \<open>e\<close> that have one, in the order of
  the input.
\<close>

definition negative_timestamps :: "string \<Rightarrow> message list \<Rightarrow> int list" where
  "negative_timestamps e rs =
     List.map_filter date (filter (\<lambda>r. sentiment_label r = Negative \<and> sender r = Some e) rs)"

text \<open>
  \<open>burst W n M\<close>: at least \<open>n\<close> of the timestamps \<open>M\<close> (counted with multiplicity) lie
  in one window of \<open>W\<close> whole days, endpoints included: the difference of any two of
  them, in whole days, is at most \<open>W\<close>.
\<close>

definition burst :: "int \<Rightarrow> nat \<Rightarrow> int multiset \<Rightarrow> bool" where
  "burst W n M \<longleftrightarrow>
     (\<exists>N. N \<subseteq># M \<and> n \<le> size N \<and> (\<forall>a\<in>#N. \<forall>b\<in>#N. (a - b) div ns_per_day \<le> W))"

subsection \<open>The two-pointer sliding window\<close>

text \<open>
  The scan over a sorted sequence \<open>t\<close> of timestamps with two pointers that only move
  forward: for each \<open>hi\<close>, \<open>lo\<close> advances while \<open>t[hi] - t[lo]\<close>, in whole days, exceeds
  \<open>window_days\<close>; the window count is \<open>hi - lo + 1\<close>; the scan stops with \<open>True\<close> the
  first time the count reaches \<open>threshold\<close>. The test \<open>lo < hi\<close> bounds the inner loop;
  for \<open>0 \<le> window_days\<close> the loop always ends by its other test, since
  \<open>t[hi] - t[hi] = 0\<close>.
\<close>

function advance :: "int \<Rightarrow> int list \<Rightarrow> nat \<Rightarrow> nat \<Rightarrow> nat" where
  "advance window_days t hi lo =
     (if lo < hi \<and> (t ! hi - t ! lo) div ns_per_day > window_days
      then advance window_days t hi (lo + 1) else lo)"
  by pat_completeness auto
termination
  by (relation "measure (\<lambda>(window_days, t, hi, lo). hi - lo)") auto

declare advance.simps [simp del]

function two_pointer :: "int \<Rightarrow> int \<Rightarrow> int list \<Rightarrow> nat \<Rightarrow> nat \<Rightarrow> bool" where
  "two_pointer window_days threshold t lo hi =
     (if hi < length t
      then (let lo' = advance window_days t hi lo
            in if int (hi - lo' + 1) \<ge> threshold then True
               else two_pointer window_days threshold t lo' (hi + 1))
      else False)"
  by pat_completeness auto
termination
  by (relation "measure (\<lambda>(window_days, threshold, t, lo, hi). length t - hi)") auto

declare two_pointer.simps [simp del]

subsection \<open>Auxiliary notions\<close>

text \<open>
  \<open>near W x d\<close> is the test of the scan on two present timestamps; \<open>near_count\<close> counts
  over the whole prefix up to index \<open>i\<close> instead of the last eleven entries only;
  \<open>neg_dates\<close> is the list \<^verbatim>\<open>dates\<close> of the group of employee \<open>e\<close>.
\<close>

definition near :: "int \<Rightarrow> int \<Rightarrow> int \<Rightarrow> bool" where
  "near W x d \<longleftrightarrow> 0 \<le> (x - d) div ns_per_day \<and> (x - d) div ns_per_day \<le> W"

definition near_count :: "int \<Rightarrow> int list \<Rightarrow> nat \<Rightarrow> nat" where
  "near_count W ts i = length (filter (near W (ts ! i)) (take (i + 1) ts))"

definition neg_dates :: "string \<Rightarrow> message list \<Rightarrow> int option list" where
  "neg_dates e rs = map snd (filter (\<lambda>p. fst p = Some e) (df_neg rs))"

text \<open>\<open>far W t i j\<close>: entry \<open>j\<close> is more than \<open>W\<close> whole days before entry \<open>i\<close>.\<close>

definition far :: "int \<Rightarrow> int list \<Rightarrow> nat \<Rightarrow> nat \<Rightarrow> bool" where
  "far W t i j \<longleftrightarrow> (t ! i - t ! j) div ns_per_day > W"

section \<open>Specification of the ranking order\<close>

text \<open>
  \<open>tie_break\<close>: two rows of one month with equal score are in ascending order of
  employee. \<open>best_order\<close> and \<open>worst_order\<close>: the order of the whole frame, by month,
  then by score (descending for best, ascending for worst), then by employee ascending.
\<close>

definition tie_break :: "monthly_score \<Rightarrow> monthly_score \<Rightarrow> bool" where
  "tie_break a b \<longleftrightarrow> (month a = month b \<and> score a = score b \<longrightarrow> employee a \<le> employee b)"

definition best_order :: "monthly_score \<Rightarrow> monthly_score \<Rightarrow> bool" where
  "best_order a b \<longleftrightarrow>
     month a < month b \<or>
     (month a = month b \<and> (score b < score a \<or> (score a = score b \<and> employee a \<le> employee b)))"

definition worst_order :: "monthly_score \<Rightarrow> monthly_score \<Rightarrow> bool" where
  "worst_order a b \<longleftrightarrow>
     month a < month b \<or>
     (month a = month b \<and> (score a < score b \<or> (score a = score b \<and> employee a \<le> employee b)))"

section \<open>Example inputs\<close>

text \<open>
  A message of employee \<open>e\<close> sent at midnight of day number \<open>d\<close>, and the two
  employees of the scenarios: alice with Negative messages on days 1, 5, 10, 20 and 31,
  bob with Negative messages on days 1, 40 and 80. One message of alice has a timestamp
  that could not be parsed, and one is Positive.
\<close>

definition msg :: "string \<Rightarrow> int \<Rightarrow> label \<Rightarrow> message" where
  "msg e d l =
     \<lparr>sender = Some e, date = Some (d * ns_per_day), body = Some ''text'', sentiment_label = l\<rparr>"

definition unparsed_message :: message where
  "unparsed_message =
     \<lparr>sender = Some ''alice'', date = None, body = Some ''text'', sentiment_label = Negative\<rparr>"

definition example_messages :: "message list" where
  "example_messages =
     [msg ''bob'' 80 Negative, msg ''alice'' 20 Negative, msg ''alice'' 1 Negative,
      msg ''bob'' 1 Negative, msg ''alice'' 31 Negative, msg ''alice'' 5 Negative,
      msg ''bob'' 40 Negative, msg ''alice'' 10 Negative, msg ''alice'' 3 Positive,
      unparsed_message]"

text \<open>
  Two messages of alice in May 2010 (days 14739 and 14740 after the epoch): one without
  a body, labelled Neutral as \<^verbatim>\<open>get_sentiment\<close> does for a missing text, and one with
  the body \<open>abcd\<close>.
\<close>

definition no_body_message :: message where
  "no_body_message =
     \<lparr>sender = Some ''alice'', date = Some (14739 * ns_per_day), body = None,
      sentiment_label = Neutral\<rparr>"

definition body_message :: message where
  "body_message =
     \<lparr>sender = Some ''alice'', date = Some (14740 * ns_per_day), body = Some ''abcd'',
      sentiment_label = Neutral\<rparr>"

section \<open>Properties of group-by\<close>

lemma insert_group_keys: "fst ` set (insert_group k r acc) = insert k (fst ` set acc)"
  by (induction k r acc rule: insert_group.induct) auto

lemma insert_group_distinct:
  "distinct (map fst acc) \<Longrightarrow> distinct (map fst (insert_group k r acc))"
proof (induction acc)
  case Nil
  then show ?case by simp
next
  case (Cons p acc)
  obtain k' g where p: "p = (k', g)" by (cases p)
  from Cons show ?case
    using insert_group_keys [of k r acc] by (auto simp: p)
qed

lemma insert_group_map_of:
  "map_of (insert_group k r acc) k' =
     (if k' = k then Some (case map_of acc k of None \<Rightarrow> [r] | Some g \<Rightarrow> g @ [r])
      else map_of acc k')"
  by (induction acc) auto

lemma group_step_distinct:
  "distinct (map fst acc) \<Longrightarrow> distinct (map fst (group_step key r acc))"
  by (simp add: group_step_def insert_group_distinct split: option.splits)

lemma fold_group_step_distinct:
  "distinct (map fst acc) \<Longrightarrow> distinct (map fst (fold (group_step key) rs acc))"
  by (induction rs arbitrary: acc) (simp_all add: group_step_distinct)

lemma fold_group_step_map_of:
  "map_of (fold (group_step key) rs acc) k =
     (case map_of acc k of
        Some g \<Rightarrow> Some (g @ filter (\<lambda>r. key r = Some k) rs)
      | None \<Rightarrow> (if filter (\<lambda>r. key r = Some k) rs = [] then None
                 else Some (filter (\<lambda>r. key r = Some k) rs)))"
proof (induction rs arbitrary: acc)
  case Nil
  then show ?case by (simp split: option.splits)
next
  case (Cons r rs)
  show ?case
  proof (cases "key r")
    case None
    then have "filter (\<lambda>r. key r = Some k) (r # rs) = filter (\<lambda>r. key r = Some k) rs"
      by simp
    moreover from None have "fold (group_step key) (r # rs) acc = fold (group_step key) rs acc"
      by (simp add: group_step_def)
    ultimately show ?thesis using Cons [of acc] by (simp split: option.splits)
  next
    case (Some k')
    then show ?thesis
      using Cons [of "insert_group k' r acc"]
      by (auto simp: group_step_def insert_group_map_of split: option.splits)
  qed
qed

lemma groupby_distinct: "distinct (map fst (groupby key rs))"
proof -
  have "distinct (map fst (fold (group_step key) rs []))"
    by (rule fold_group_step_distinct) simp
  then show ?thesis
    unfolding groupby_def by (simp add: distinct_map)
qed

lemma groupby_sorted: "sorted (map fst (groupby key rs))"
  unfolding groupby_def by simp

lemma groupby_member:
  "(k, g) \<in> set (groupby key rs) \<longleftrightarrow>
     g = filter (\<lambda>r. key r = Some k) rs \<and> g \<noteq> []"
proof -
  let ?acc = "fold (group_step key) rs []"
  have d: "distinct (map fst ?acc)"
    by (rule fold_group_step_distinct) simp
  have "(k, g) \<in> set (groupby key rs) \<longleftrightarrow> (k, g) \<in> set ?acc"
    unfolding groupby_def by simp
  also have "\<dots> \<longleftrightarrow> map_of ?acc k = Some g"
    using d by simp
  also have "\<dots> \<longleftrightarrow> g = filter (\<lambda>r. key r = Some k) rs \<and> g \<noteq> []"
    by (auto simp: fold_group_step_map_of)
  finally show ?thesis .
qed

lemma distinct_fst_filter_key:
  "distinct (map fst xs) \<Longrightarrow> (k, g) \<in> set xs \<Longrightarrow> filter (\<lambda>p. fst p = k) xs = [(k, g)]"
proof (induction xs)
  case Nil
  then show ?case by simp
next
  case (Cons p xs)
  show ?case
  proof (cases "p = (k, g)")
    case True
    with Cons.prems have "\<forall>q\<in>set xs. fst q \<noteq> k" by auto
    then have "filter (\<lambda>p. fst p = k) xs = []" by (simp add: filter_empty_conv)
    with True show ?thesis by simp
  next
    case False
    with Cons.prems have in_xs: "(k, g) \<in> set xs" by simp
    with Cons.prems have "fst p \<noteq> k" by (auto simp: image_iff)
    with Cons in_xs show ?thesis by simp
  qed
qed

lemma groupby_filter_key:
  "filter (\<lambda>p. fst p = k) (groupby key rs) =
     (if filter (\<lambda>r. key r = Some k) rs = [] then []
      else [(k, filter (\<lambda>r. key r = Some k) rs)])"
proof (cases "filter (\<lambda>r. key r = Some k) rs = []")
  case True
  have "\<forall>p\<in>set (groupby key rs). fst p \<noteq> k"
  proof
    fix p assume "p \<in> set (groupby key rs)"
    then have "(fst p, snd p) \<in> set (groupby key rs)" by simp
    then have "filter (\<lambda>r. key r = Some (fst p)) rs \<noteq> []"
      unfolding groupby_member by auto
    with True show "fst p \<noteq> k" by auto
  qed
  then have "filter (\<lambda>p. fst p = k) (groupby key rs) = []"
    by (simp add: filter_empty_conv)
  with True show ?thesis by simp
next
  case False
  then have "(k, filter (\<lambda>r. key r = Some k) rs) \<in> set (groupby key rs)"
    by (simp add: groupby_member)
  from distinct_fst_filter_key [OF groupby_distinct this] False
  show ?thesis by simp
qed

section \<open>Monthly aggregation\<close>

lemma employee_month_eq:
  "employee_month r = Some (e, m) \<longleftrightarrow> sender r = Some e \<and> df_month r = Some m"
  by (auto simp: employee_month_def split: option.splits)

text \<open>
  Claim C3 (aggregation exactness). The rows of \<open>monthly_scores\<close> for employee \<open>e\<close>
  and month \<open>m\<close> are: exactly one row when some message of \<open>e\<close> has a timestamp in
  month \<open>m\<close>, and its score is the sum of +1 / -1 / 0 over precisely the messages of
  \<open>e\<close> with a timestamp in \<open>m\<close>; no row otherwise.
\<close>

theorem monthly_scores_exact:
  "filter (\<lambda>x. employee x = e \<and> month x = m) (monthly_scores rs) =
     (if \<exists>r\<in>set rs. sender r = Some e \<and> df_month r = Some m
      then [\<lparr>employee = e, month = m,
             score = (\<Sum>r\<leftarrow>filter (\<lambda>r. sender r = Some e \<and> df_month r = Some m) rs.
                        score_mapper (sentiment_label r))\<rparr>]
      else [])"
proof -
  let ?row = "\<lambda>(k, g). \<lparr>employee = fst k, month = snd k, score = sum_list (map df_score g)\<rparr>"
  let ?g = "filter (\<lambda>r. sender r = Some e \<and> df_month r = Some m) rs"
  have g: "filter (\<lambda>r. employee_month r = Some (e, m)) rs = ?g"
    by (simp add: employee_month_eq)
  have "filter (\<lambda>x. employee x = e \<and> month x = m) (monthly_scores rs) =
        map ?row (filter (\<lambda>p. fst p = (e, m)) (groupby employee_month rs))"
    unfolding monthly_scores_def filter_map
    by (rule arg_cong [where f = "map ?row"], rule filter_cong) (auto simp: prod_eq_iff)
  also have "\<dots> = (if ?g = [] then [] else map ?row [((e, m), ?g)])"
    by (simp add: groupby_filter_key g)
  also have "\<dots> = (if ?g = [] then []
      else [\<lparr>employee = e, month = m, score = (\<Sum>r\<leftarrow>?g. score_mapper (sentiment_label r))\<rparr>])"
    by (simp add: df_score_def [abs_def])
  finally show ?thesis
    by (auto simp: filter_empty_conv)
qed

theorem monthly_scores_exact_witness:
  "(\<exists>r\<in>set example_messages. sender r = Some ''alice'' \<and> df_month r = Some 0) \<and>
   filter (\<lambda>x. employee x = ''alice'' \<and> month x = 0) (monthly_scores example_messages) =
     [\<lparr>employee = ''alice'', month = 0, score = - 3\<rparr>]"
proof -
  have a: "\<exists>r\<in>set example_messages. sender r = Some ''alice'' \<and> df_month r = Some 0"
    by code_simp
  have b: "(\<Sum>r\<leftarrow>filter (\<lambda>r. sender r = Some ''alice'' \<and> df_month r = Some 0) example_messages.
              score_mapper (sentiment_label r)) = - 3"
    by code_simp
  show ?thesis
    using monthly_scores_exact [of "''alice''" 0 example_messages] a b by simp
qed

section \<open>The scan over one employee\<close>

lemma ns_per_day_pos: "0 < ns_per_day"
  by (simp add: ns_per_day_def)

lemma in_window_Some: "in_window W (Some x) (Some d) = near W x d"
  by (auto simp: in_window_def near_def days_def)

lemma in_window_None: "in_window W None d = False" "in_window W x None = False"
  by (cases x; simp add: in_window_def days_def)+

lemma scan_iff:
  "scan W T dates js \<longleftrightarrow> (\<exists>i\<in>set js. T \<le> int (window_count W dates i))"
  by (induction js) auto

lemma flagged_iff:
  "flagged W T dates \<longleftrightarrow> (\<exists>i<length dates. T \<le> int (window_count W dates i))"
  by (auto simp: flagged_def scan_iff)

lemma slice_lookback:
  "slice (nat (max 0 (int i - 10))) (i + 1) xs = drop (i - 10) (take (i + 1) xs)"
proof -
  have "nat (max 0 (int i - 10)) = i - 10" by auto
  then show ?thesis by (simp add: slice_def drop_take)
qed

lemma filter_map_Some:
  "filter (in_window W (Some x)) (map Some ds) = map Some (filter (near W x) ds)"
  by (induction ds) (auto simp: in_window_Some)

lemma window_count_Some:
  assumes "i < length ts"
  shows "window_count W (map Some ts) i =
         length (filter (near W (ts ! i)) (drop (i - 10) (take (i + 1) ts)))"
proof -
  have "slice (nat (max 0 (int i - 10))) (i + 1) (map Some ts) =
        map Some (drop (i - 10) (take (i + 1) ts))"
    unfolding slice_lookback by (simp add: drop_map take_map)
  with assms show ?thesis
    by (simp add: window_count_def filter_map_Some)
qed

lemma sorted_split_upward:
  fixes q :: "'a::linorder list"
  assumes "sorted q" and up: "\<And>a b. a \<le> b \<Longrightarrow> P a \<Longrightarrow> P b"
  shows "q = filter (\<lambda>x. \<not> P x) q @ filter P q"
  using assms(1)
proof (induction q)
  case Nil
  then show ?case by simp
next
  case (Cons a q)
  show ?case
  proof (cases "P a")
    case True
    with Cons.prems up have "\<forall>x\<in>set (a # q). P x" by auto
    then have "filter P (a # q) = a # q" "filter (\<lambda>x. \<not> P x) (a # q) = []"
      by (simp_all add: filter_empty_conv)
    then show ?thesis by simp
  next
    case False
    with Cons show ?thesis by simp
  qed
qed

lemma length_filter_drop_split:
  assumes "\<forall>u\<in>set us. \<not> P u" and "\<forall>v\<in>set vs. P v"
  shows "length (filter P (drop k (us @ vs))) = min (length vs) (length (us @ vs) - k)"
proof -
  have "filter P (drop k us) = []"
    using assms(1) by (auto simp: filter_empty_conv dest: in_set_dropD)
  moreover have "filter P (drop (k - length us) vs) = drop (k - length us) vs"
    using assms(2) by (auto simp: filter_id_conv dest: in_set_dropD)
  ultimately show ?thesis by auto
qed

lemma near_upward: "a \<le> b \<Longrightarrow> (x - a) div ns_per_day \<le> W \<Longrightarrow> (x - b) div ns_per_day \<le> W"
proof -
  assume "a \<le> b" and w: "(x - a) div ns_per_day \<le> W"
  then have "(x - b) div ns_per_day \<le> (x - a) div ns_per_day"
    using ns_per_day_pos by (intro zdiv_mono1) auto
  with w show ?thesis by simp
qed

lemma near_below: "d \<le> x \<Longrightarrow> near W x d \<longleftrightarrow> (x - d) div ns_per_day \<le> W"
  using ns_per_day_pos by (simp add: near_def pos_imp_zdiv_nonneg_iff)

lemma near_imp_le: "near W x d \<Longrightarrow> d \<le> x"
  using ns_per_day_pos by (simp add: near_def pos_imp_zdiv_nonneg_iff)

lemma window_count_sorted:
  assumes "sorted ts" and "i < length ts"
  shows "window_count W (map Some ts) i = min 11 (near_count W ts i)"
proof -
  let ?q = "take (i + 1) ts"
  let ?x = "ts ! i"
  let ?P = "\<lambda>d. (?x - d) div ns_per_day \<le> W"
  have sq: "sorted ?q" using assms(1) by (rule sorted_wrt_take)
  have le: "\<forall>d\<in>set ?q. d \<le> ?x"
  proof
    fix d assume "d \<in> set ?q"
    then obtain j where "j < i + 1" "j < length ts" "d = ts ! j"
      by (auto simp: in_set_conv_nth)
    with assms show "d \<le> ?x" by (auto simp: sorted_iff_nth_mono)
  qed
  have eqP: "filter (near W ?x) zs = filter ?P zs" if "set zs \<subseteq> set ?q" for zs
    using that le by (intro filter_cong) (auto simp: near_below)
  have split: "?q = filter (\<lambda>d. \<not> ?P d) ?q @ filter ?P ?q"
    using sq by (rule sorted_split_upward) (rule near_upward)
  let ?us = "filter (\<lambda>d. \<not> ?P d) ?q" and ?vs = "filter ?P ?q"
  have "length (filter ?P (drop (i - 10) (?us @ ?vs))) =
        min (length ?vs) (length (?us @ ?vs) - (i - 10))"
    by (rule length_filter_drop_split) auto
  with split have "length (filter ?P (drop (i - 10) ?q)) = min (length ?vs) (length ?q - (i - 10))"
    by simp
  moreover have "length ?q = i + 1" using assms(2) by simp
  moreover have "length ?vs \<le> length ?q" by (rule length_filter_le)
  ultimately have "length (filter ?P (drop (i - 10) ?q)) = min 11 (length ?vs)"
    by auto
  moreover have "filter (near W ?x) (drop (i - 10) ?q) = filter ?P (drop (i - 10) ?q)"
    by (rule eqP) (rule set_drop_subset)
  moreover have "filter (near W ?x) ?q = ?vs"
    by (rule eqP) simp
  ultimately show ?thesis
    using assms(2) by (simp add: window_count_Some near_count_def)
qed

lemma flagged_sorted:
  assumes "sorted ts" and "T \<le> 11"
  shows "flagged W T (map Some ts) \<longleftrightarrow> (\<exists>i<length ts. T \<le> int (near_count W ts i))"
proof -
  have "T \<le> int (window_count W (map Some ts) i) \<longleftrightarrow> T \<le> int (near_count W ts i)"
    if "i < length ts" for i
    using assms that by (auto simp: window_count_sorted)
  then show ?thesis by (auto simp: flagged_iff)
qed

lemma sorted_le_last:
  fixes xs :: "'a::linorder list"
  shows "sorted xs \<Longrightarrow> x \<in> set xs \<Longrightarrow> x \<le> last xs"
  by (induction xs) auto

lemma near_count_imp_burst:
  assumes "i < length ts" and "n \<le> near_count W ts i"
  shows "burst W n (mset ts)"
proof -
  let ?x = "ts ! i"
  let ?f = "filter (near W ?x) (take (i + 1) ts)"
  let ?N = "mset ?f"
  have "mset (take (i + 1) ts) \<subseteq># mset ts"
    by (metis append_take_drop_id mset_append mset_subset_eq_add_left)
  moreover have "?N \<subseteq># mset (take (i + 1) ts)"
    by simp
  ultimately have sub: "?N \<subseteq># mset ts" by (rule subset_mset.order_trans [rotated])
  have sz: "n \<le> size ?N" using assms(2) by (simp add: near_count_def del: mset_filter)
  have "(a - b) div ns_per_day \<le> W" if "a \<in># ?N" "b \<in># ?N" for a b
  proof -
    from that have a: "near W ?x a" and b: "near W ?x b" by auto
    from a have "a \<le> ?x" by (rule near_imp_le)
    then have "(a - b) div ns_per_day \<le> (?x - b) div ns_per_day"
      using ns_per_day_pos by (intro zdiv_mono1) auto
    with b show ?thesis by (simp add: near_def)
  qed
  with sub sz show ?thesis unfolding burst_def by blast
qed

lemma burst_imp_near_count:
  assumes "sorted ts" and "burst W n (mset ts)" and "0 < n"
  shows "\<exists>i<length ts. n \<le> near_count W ts i"
proof -
  from assms(2) obtain N where sub: "N \<subseteq># mset ts" and sz: "n \<le> size N"
    and pw: "\<forall>a\<in>#N. \<forall>b\<in>#N. (a - b) div ns_per_day \<le> W"
    unfolding burst_def by blast
  from sz assms(3) have ne: "set_mset N \<noteq> {}" by auto
  define b where "b = Max (set_mset N)"
  have bN: "b \<in># N" unfolding b_def using ne by (intro Max_in) auto
  have le_b: "a \<le> b" if "a \<in># N" for a
    unfolding b_def using that by (intro Max_ge) auto
  from bN sub have b_ts: "b \<in> set ts" by (metis mset_subset_eqD set_mset_mset)
  let ?q = "filter (\<lambda>d. \<not> b < d) ts"
  have split: "ts = ?q @ filter (\<lambda>d. b < d) ts"
    using sorted_split_upward [OF assms(1), of "\<lambda>d. b < d"] by auto
  have q_ne: "?q \<noteq> []" using b_ts by (auto simp: filter_empty_conv)
  define i where "i = length ?q - 1"
  have i_len: "i + 1 = length ?q" using q_ne by (simp add: i_def)
  have i_lt: "i < length ts"
    using length_filter_le [of "\<lambda>d. \<not> b < d" ts] i_len by linarith
  have take_q: "take (i + 1) ts = ?q"
    using split i_len by (metis append_eq_conv_conj)
  have "ts ! i = ?q ! i" using i_len by (metis take_q nth_take lessI Suc_eq_plus1)
  also have "\<dots> = last ?q" using q_ne i_def by (simp add: last_conv_nth)
  finally have x_last: "ts ! i = last ?q" .
  have "sorted ?q" using assms(1) by (rule sorted_wrt_filter)
  moreover have "b \<in> set ?q" using b_ts by simp
  ultimately have "b \<le> last ?q" by (rule sorted_le_last)
  moreover have "last ?q \<le> b" using last_in_set [OF q_ne] by auto
  ultimately have x: "ts ! i = b" using x_last by simp
  have "N = filter_mset (\<lambda>d. \<not> b < d \<and> near W b d) N"
  proof -
    have "\<not> b < d \<and> near W b d" if "d \<in># N" for d
    proof -
      from that have "d \<le> b" by (rule le_b)
      moreover from that bN pw have "(b - d) div ns_per_day \<le> W" by blast
      ultimately show ?thesis by (simp add: near_below)
    qed
    then have "filter_mset (\<lambda>d. \<not> b < d \<and> near W b d) N = filter_mset (\<lambda>d. True) N"
      by (intro filter_mset_cong) auto
    then show ?thesis by simp
  qed
  also have "\<dots> \<subseteq># filter_mset (\<lambda>d. \<not> b < d \<and> near W b d) (mset ts)"
    using sub by (rule multiset_filter_mono)
  also have "\<dots> = mset (filter (near W b) ?q)"
    by (simp add: conj_commute)
  finally have "size N \<le> length (filter (near W b) ?q)"
    by (metis size_mset_mono size_mset)
  moreover have "near_count W ts i = length (filter (near W b) ?q)"
    unfolding near_count_def take_q x ..
  ultimately have "n \<le> near_count W ts i"
    using sz by linarith
  with i_lt show ?thesis by blast
qed

lemma flagged_sorted_burst:
  assumes "sorted ts" and "0 < n" and "n \<le> 11"
  shows "flagged W (int n) (map Some ts) \<longleftrightarrow> burst W n (mset ts)"
proof -
  have "flagged W (int n) (map Some ts) \<longleftrightarrow> (\<exists>i<length ts. n \<le> near_count W ts i)"
    using assms by (simp add: flagged_sorted)
  also have "\<dots> \<longleftrightarrow> burst W n (mset ts)"
    using assms near_count_imp_burst burst_imp_near_count by blast
  finally show ?thesis .
qed

section \<open>The groups of the flight-risk loop\<close>

lemma flagged_Nil: "flagged W T [] = False"
  by (simp add: flagged_def)

lemma detect_iff: "e \<in> detect rs W T \<longleftrightarrow> flagged W T (neg_dates e rs)"
proof -
  let ?g = "filter (\<lambda>p. fst p = Some e) (df_neg rs)"
  have "e \<in> detect rs W T \<longleftrightarrow>
        (\<exists>g. (e, g) \<in> set (groupby fst (df_neg rs)) \<and> flagged W T (map snd g))"
    by (force simp: detect_def flight_risk_loop_def)
  also have "\<dots> \<longleftrightarrow> ?g \<noteq> [] \<and> flagged W T (map snd ?g)"
    by (auto simp: groupby_member)
  also have "\<dots> \<longleftrightarrow> flagged W T (map snd ?g)"
    by (auto simp: flagged_Nil)
  finally show ?thesis by (simp add: neg_dates_def)
qed

lemma insort_key_map_order:
  assumes "\<And>x y. f (g x) \<le> f (g y) \<longleftrightarrow> h x \<le> h y"
  shows "insort_key f (g x) (map g ys) = map g (insort_key h x ys)"
  by (induction ys) (simp_all add: assms)

lemma sort_key_map_order:
  assumes "\<And>x y. f (g x) \<le> f (g y) \<longleftrightarrow> h x \<le> h y"
  shows "sort_key f (map g xs) = map g (sort_key h xs)"
  by (induction xs) (simp_all add: insort_key_map_order [of f g h, OF assms])

lemma mset_option_list:
  "mset ds = image_mset Some (mset (List.map_filter id ds)) +
             replicate_mset (length (filter (\<lambda>d. d = None) ds)) None"
  by (induction ds) (auto simp: map_filter_simps split: option.splits)

lemma inj_na_last: "inj (na_last d0)"
proof (rule injI)
  fix x y :: "'a option"
  assume "na_last d0 x = na_last d0 y"
  then show "x = y" by (cases x; cases y) auto
qed

lemma sorted_map_Pair:
  fixes xs :: "'a::linorder list"
  shows "sorted xs \<Longrightarrow> sorted (map (Pair (c::nat)) xs)"
  by (induction xs) (auto simp: less_eq_prod_def)

lemma map_filter_id_map: "List.map_filter id (map f xs) = List.map_filter f xs"
  by (induction xs) (simp_all split: option.splits)

lemma sort_key_na_last:
  "sort_key (na_last d0) ds =
     map Some (sort (List.map_filter id ds)) @ replicate (length (filter (\<lambda>d. d = None) ds)) None"
  (is "_ = ?ys")
proof (rule sort_key_inj_key_eq)
  show "mset ds = mset ?ys"
    by (subst mset_option_list) simp
  show "inj_on (na_last d0) (set ds)"
    using inj_na_last by (rule inj_on_subset) simp
  have "sorted (map (Pair (0::nat)) (sort (List.map_filter id ds)))"
    by (rule sorted_map_Pair) simp
  then show "sorted (map (na_last d0) ?ys)"
    by (auto simp: sorted_append comp_def less_eq_prod_def)
qed

lemma neg_dates_eq:
  "neg_dates e rs =
     map Some (sort (negative_timestamps e rs)) @
     replicate (length (filter (\<lambda>r. sentiment_label r = Negative \<and> sender r = Some e \<and> date r = None) rs)) None"
proof -
  let ?P = "\<lambda>r. sentiment_label r = Negative \<and> sender r = Some e"
  let ?D = "map date (filter ?P rs)"
  have Y: "filter (\<lambda>p. fst p = Some e)
            (map (\<lambda>r. (sender r, date r)) (filter (\<lambda>r. sentiment_label r = Negative) rs)) =
           map (Pair (Some e)) ?D"
    by (induction rs) auto
  have ord: "neg_key (Some e, x) \<le> neg_key (Some e, y) \<longleftrightarrow> na_last 0 x \<le> na_last 0 y"
    for x y :: "int option"
    by (auto simp: neg_key_def less_eq_prod_def)
  have "filter (\<lambda>p. fst p = Some e) (df_neg rs) =
        sort_key neg_key (map (Pair (Some e)) ?D)"
    unfolding df_neg_def filter_sort Y ..
  also have "\<dots> = map (Pair (Some e)) (sort_key (na_last 0) ?D)"
    by (rule sort_key_map_order) (rule ord)
  finally have "neg_dates e rs = sort_key (na_last 0) ?D"
    by (simp add: neg_dates_def comp_def)
  moreover have "List.map_filter id ?D = negative_timestamps e rs"
    by (simp add: negative_timestamps_def map_filter_id_map)
  moreover have "length (filter (\<lambda>d. d = None) ?D) =
      length (filter (\<lambda>r. sentiment_label r = Negative \<and> sender r = Some e \<and> date r = None) rs)"
    by (simp add: filter_map comp_def conj_commute conj_left_commute)
  ultimately show ?thesis
    by (simp add: sort_key_na_last)
qed

lemma window_count_append_None:
  assumes "i < length ts"
  shows "window_count W (map Some ts @ replicate n None) i = window_count W (map Some ts) i"
proof -
  let ?xs = "map Some ts"
  have "slice a (i + 1) (?xs @ replicate n None) = slice a (i + 1) ?xs" for a
    using assms by (simp add: slice_def)
  moreover have "(?xs @ replicate n None) ! i = ?xs ! i"
    using assms by (simp add: nth_append)
  ultimately show ?thesis
    unfolding window_count_def by simp
qed

lemma window_count_None:
  assumes "dates ! i = None"
  shows "window_count W dates i = 0"
  using assms by (simp add: window_count_def in_window_None)

lemma flagged_append_None:
  assumes "0 < T"
  shows "flagged W T (map Some ts @ replicate n None) = flagged W T (map Some ts)"
proof -
  let ?ds = "map Some ts @ replicate n None"
  have a: "T \<le> int (window_count W ?ds i) \<longleftrightarrow>
           i < length ts \<and> T \<le> int (window_count W (map Some ts) i)"
    if "i < length ?ds" for i
  proof (cases "i < length ts")
    case True
    then show ?thesis by (simp add: window_count_append_None)
  next
    case False
    with that have "?ds ! i = None" by (simp add: nth_append)
    then have "window_count W ?ds i = 0" by (rule window_count_None)
    with False assms show ?thesis by simp
  qed
  show ?thesis
    unfolding flagged_iff
  proof
    assume "\<exists>i<length ?ds. T \<le> int (window_count W ?ds i)"
    then obtain i where "i < length ?ds" "T \<le> int (window_count W ?ds i)" by blast
    with a [of i] have "i < length ts \<and> T \<le> int (window_count W (map Some ts) i)" by blast
    then show "\<exists>i<length (map Some ts). T \<le> int (window_count W (map Some ts) i)" by auto
  next
    assume "\<exists>i<length (map Some ts). T \<le> int (window_count W (map Some ts) i)"
    then obtain i where i: "i < length ts" "T \<le> int (window_count W (map Some ts) i)" by auto
    then have "i < length ?ds" by simp
    with a [of i] i have "T \<le> int (window_count W ?ds i)" by blast
    with \<open>i < length ?ds\<close> show "\<exists>i<length ?ds. T \<le> int (window_count W ?ds i)" by blast
  qed
qed

lemma detect_burst:
  assumes "0 < n" and "n \<le> 11"
  shows "e \<in> detect rs W (int n) \<longleftrightarrow> burst W n (mset (negative_timestamps e rs))"
proof -
  have "e \<in> detect rs W (int n) \<longleftrightarrow> flagged W (int n) (map Some (sort (negative_timestamps e rs)))"
    using assms(1) by (simp add: detect_iff neg_dates_eq flagged_append_None)
  also have "\<dots> \<longleftrightarrow> burst W n (mset (sort (negative_timestamps e rs)))"
    using assms by (intro flagged_sorted_burst) simp_all
  finally show ?thesis by simp
qed

section \<open>Flight-risk detection\<close>

lemma negative_timestamps_length:
  "length (negative_timestamps e rs) \<le>
     length (filter (\<lambda>r. sentiment_label r = Negative \<and> sender r = Some e) rs)"
  by (induction rs) (auto simp: negative_timestamps_def split: option.splits)

lemma negative_timestamps_drop_null:
  "negative_timestamps e (filter (\<lambda>r. date r \<noteq> None) rs) = negative_timestamps e rs"
  by (induction rs) (auto simp: negative_timestamps_def)

text \<open>
  Claim C1 (flight-risk detection correctness). With the notebook's window of 30 days
  and threshold 4, employee \<open>e\<close> is flagged if and only if at least 4 of the timestamps
  of the Negative messages of \<open>e\<close> lie in one window of 30 whole days, endpoints
  included; an employee with fewer than 4 Negative messages is never flagged.
\<close>

theorem flight_risk_correct:
  "(e \<in> flight_risk rs \<longleftrightarrow> burst 30 4 (mset (negative_timestamps e rs))) \<and>
   (length (filter (\<lambda>r. sentiment_label r = Negative \<and> sender r = Some e) rs) < 4 \<longrightarrow>
      e \<notin> flight_risk rs)"
proof -
  have iff: "e \<in> flight_risk rs \<longleftrightarrow> burst 30 4 (mset (negative_timestamps e rs))"
    using detect_burst [of 4 e rs 30] by (simp add: flight_risk_def)
  have "\<not> burst 30 4 (mset (negative_timestamps e rs))"
    if few: "length (filter (\<lambda>r. sentiment_label r = Negative \<and> sender r = Some e) rs) < 4"
  proof
    assume "burst 30 4 (mset (negative_timestamps e rs))"
    then obtain N where "N \<subseteq># mset (negative_timestamps e rs)" and "4 \<le> size N"
      unfolding burst_def by blast
    then have "4 \<le> length (negative_timestamps e rs)"
      by (metis size_mset_mono size_mset le_trans)
    with negative_timestamps_length [of e rs] few show False by linarith
  qed
  with iff show ?thesis by blast
qed

theorem flight_risk_correct_witness:
  "''alice'' \<in> flight_risk example_messages \<and>
   burst 30 4 (mset (negative_timestamps ''alice'' example_messages)) \<and>
   length (filter (\<lambda>r. sentiment_label r = Negative \<and> sender r = Some ''bob'') example_messages) < 4 \<and>
   ''bob'' \<notin> flight_risk example_messages"
proof -
  have a: "''alice'' \<in> flight_risk example_messages"
    unfolding flight_risk_def detect_def by code_simp
  have b: "length (filter (\<lambda>r. sentiment_label r = Negative \<and> sender r = Some ''bob'') example_messages) < 4"
    by code_simp
  show ?thesis
    using flight_risk_correct [of "''alice''" example_messages]
      flight_risk_correct [of "''bob''" example_messages] a b by blast
qed

text \<open>
  Claim C7 (window boundary inclusivity). The test of the scan holds exactly when the
  difference in whole days is between 0 and the window length, both included: a message
  exactly 30 days before the current one is counted, a message 31 days before (or after)
  is not, so the count at either message of a pair 31 days apart is 1.
\<close>

theorem window_boundary_inclusive:
  "(in_window W (Some a) (Some b) \<longleftrightarrow>
      0 \<le> (a - b) div ns_per_day \<and> (a - b) div ns_per_day \<le> W) \<and>
   in_window 30 (Some (t + 30 * ns_per_day)) (Some t) \<and>
   \<not> in_window 30 (Some (t + 31 * ns_per_day)) (Some t) \<and>
   \<not> in_window 30 (Some t) (Some (t + 31 * ns_per_day)) \<and>
   window_count 30 [Some t, Some (t + 30 * ns_per_day)] 1 = 2 \<and>
   window_count 30 [Some t, Some (t + 31 * ns_per_day)] 1 = 1 \<and>
   window_count 30 [Some t, Some (t + 31 * ns_per_day)] 0 = 1"
proof -
  have n30: "near 30 (t + 30 * ns_per_day) t"
    using ns_per_day_pos by (simp add: near_def)
  have n31: "\<not> near 30 (t + 31 * ns_per_day) t"
    using ns_per_day_pos by (simp add: near_def)
  have n31': "\<not> near 30 t (t + 31 * ns_per_day)"
    by (simp add: near_def ns_per_day_def)
  have refl: "near 30 x x" for x
    by (simp add: near_def)
  have sl1: "slice (nat (max 0 (int 1 - 10))) (1 + 1) [x, y] = [x, y]" for x y :: "int option"
    by (simp add: slice_def)
  have sl0: "slice (nat (max 0 (int 0 - 10))) (0 + 1) [x, y] = [x]" for x y :: "int option"
    by (simp add: slice_def)
  show ?thesis
    unfolding window_count_def sl1 sl0
    using n30 n31 n31' refl by (simp add: in_window_Some near_def)
qed

text \<open>
  Claim C10 (Negative-only noninterference). Two inputs with the same Negative
  messages give the same flight-risk set, whatever their Positive and Neutral messages.
\<close>

theorem negative_only_noninterference:
  assumes "filter (\<lambda>r. sentiment_label r = Negative) rs = filter (\<lambda>r. sentiment_label r = Negative) rs'"
  shows "flight_risk rs = flight_risk rs'"
  using assms by (simp add: flight_risk_def detect_def flight_risk_loop_def df_neg_def)

theorem negative_only_noninterference_witness:
  "filter (\<lambda>r. sentiment_label r = Negative) (msg ''bob'' 2 Positive # msg ''carol'' 3 Neutral # example_messages) =
   filter (\<lambda>r. sentiment_label r = Negative) example_messages \<and>
   flight_risk (msg ''bob'' 2 Positive # msg ''carol'' 3 Neutral # example_messages) =
   flight_risk example_messages"
proof -
  have "filter (\<lambda>r. sentiment_label r = Negative) (msg ''bob'' 2 Positive # msg ''carol'' 3 Neutral # example_messages) =
        filter (\<lambda>r. sentiment_label r = Negative) example_messages"
    by (simp add: msg_def)
  then show ?thesis
    using negative_only_noninterference
      [of "msg ''bob'' 2 Positive # msg ''carol'' 3 Neutral # example_messages" example_messages]
    by blast
qed

section \<open>Messages without a timestamp\<close>

lemma groupby_drop_keyless:
  assumes "\<And>r. \<not> P r \<Longrightarrow> key r = None"
  shows "groupby key (filter P rs) = groupby key rs"
proof -
  have "fold (group_step key) (filter P rs) acc = fold (group_step key) rs acc" for acc
    by (induction rs arbitrary: acc) (auto simp: group_step_def assms)
  then show ?thesis by (simp add: groupby_def)
qed

lemma monthly_scores_drop_null:
  "monthly_scores (filter (\<lambda>r. date r \<noteq> None) rs) = monthly_scores rs"
proof -
  have "groupby employee_month (filter (\<lambda>r. date r \<noteq> None) rs) = groupby employee_month rs"
    by (rule groupby_drop_keyless) (simp add: employee_month_def df_month_def split: option.splits)
  then show ?thesis by (simp add: monthly_scores_def)
qed

lemma features_of_drop_null:
  "features_of (filter (\<lambda>p. date (fst p) \<noteq> None) rows) = features_of rows"
proof -
  have "groupby (\<lambda>p. employee_month (fst p)) (filter (\<lambda>p. date (fst p) \<noteq> None) rows) =
        groupby (\<lambda>p. employee_month (fst p)) rows"
    by (rule groupby_drop_keyless) (simp add: employee_month_def df_month_def split: option.splits)
  then show ?thesis by (simp add: features_of_def)
qed

lemma zip_msg_length:
  "zip xs (map f xs) = map (\<lambda>x. (x, f x)) xs"
  by (induction xs) simp_all

lemma msg_length_Inr:
  "msg_length df = Inr col \<Longrightarrow> col = map (\<lambda>r. map_option length (body r)) df"
  by (simp add: msg_length_def split: if_splits)

lemma features_Inr:
  assumes "features df = Inr fs"
  shows "fs = features_of (map (\<lambda>r. (r, map_option length (body r))) df)"
proof -
  from assms obtain col where col: "msg_length df = Inr col" and fs: "fs = features_of (zip df col)"
    by (auto simp: features_def split: sum.splits)
  from col have "col = map (\<lambda>r. map_option length (body r)) df"
    by (rule msg_length_Inr)
  with fs show ?thesis by (simp add: zip_msg_length)
qed

lemma features_drop_null:
  assumes "features rs = Inr fs" and "features (filter (\<lambda>r. date r \<noteq> None) rs) = Inr fs'"
  shows "fs' = fs"
proof -
  let ?f = "\<lambda>r. (r, map_option length (body r))"
  have "fs' = features_of (map ?f (filter (\<lambda>r. date r \<noteq> None) rs))"
    using assms(2) by (rule features_Inr)
  also have "map ?f (filter (\<lambda>r. date r \<noteq> None) rs) =
             filter (\<lambda>p. date (fst p) \<noteq> None) (map ?f rs)"
    by (simp add: filter_map comp_def)
  also have "features_of \<dots> = features_of (map ?f rs)"
    by (rule features_of_drop_null)
  also have "\<dots> = fs"
    using assms(1) by (rule features_Inr [symmetric])
  finally show ?thesis .
qed

text \<open>
  Claim C8 (malformed-timestamp recovery). Removing the messages whose timestamp is
  missing changes neither the monthly scores, nor the flight-risk set, nor the
  aggregation of the feature table (and so not the feature table, when the cell that
  builds it raises on neither frame): such a message has
  no (employee, month) key, and the test of the scan is false as soon as one of the two
  timestamps is missing. A missing timestamp raises nothing: the only error of the
  model, the AttributeError of \<^verbatim>\<open>msg_length\<close>, depends on the bodies alone.
\<close>

theorem null_timestamp_excluded:
  "monthly_scores (filter (\<lambda>r. date r \<noteq> None) rs) = monthly_scores rs \<and>
   flight_risk (filter (\<lambda>r. date r \<noteq> None) rs) = flight_risk rs \<and>
   features_of (filter (\<lambda>p. date (fst p) \<noteq> None) rows) = features_of rows \<and>
   (features rs = Inr fs \<and> features (filter (\<lambda>r. date r \<noteq> None) rs) = Inr fs' \<longrightarrow> fs' = fs) \<and>
   (date r = None \<longrightarrow> employee_month r = None) \<and>
   \<not> in_window 30 None d \<and> \<not> in_window 30 x None"
proof -
  have b: "e \<in> detect R 30 4 \<longleftrightarrow> burst 30 4 (mset (negative_timestamps e R))" for e R
    using detect_burst [of 4 e R 30] by simp
  have "e \<in> flight_risk (filter (\<lambda>r. date r \<noteq> None) rs) \<longleftrightarrow> e \<in> flight_risk rs" for e
    unfolding flight_risk_def b negative_timestamps_drop_null ..
  then have "flight_risk (filter (\<lambda>r. date r \<noteq> None) rs) = flight_risk rs"
    by blast
  moreover have "date r = None \<longrightarrow> employee_month r = None"
    by (simp add: employee_month_def df_month_def split: option.splits)
  moreover have "\<not> in_window 30 None d \<and> \<not> in_window 30 x None"
    by (simp add: in_window_None)
  moreover have "features rs = Inr fs \<and> features (filter (\<lambda>r. date r \<noteq> None) rs) = Inr fs' \<longrightarrow> fs' = fs"
    using features_drop_null [of rs fs fs'] by blast
  moreover note monthly_scores_drop_null [of rs] features_of_drop_null [of rows]
  ultimately show ?thesis
    by blast
qed

theorem null_timestamp_excluded_witness:
  "unparsed_message \<in> set example_messages \<and> date unparsed_message = None \<and>
   employee_month unparsed_message = None \<and>
   monthly_scores (filter (\<lambda>r. date r \<noteq> None) example_messages) = monthly_scores example_messages \<and>
   flight_risk (filter (\<lambda>r. date r \<noteq> None) example_messages) = flight_risk example_messages \<and>
   features (filter (\<lambda>r. date r \<noteq> None) example_messages) = features example_messages"
proof -
  let ?f = "\<lambda>r. (r, map_option length (body r))"
  have m: "unparsed_message \<in> set example_messages"
    by (simp add: example_messages_def unparsed_message_def)
  have d: "date unparsed_message = None"
    by (simp add: unparsed_message_def)
  have a: "features example_messages = Inr (features_of (map ?f example_messages))"
    by (simp add: features_def msg_length_def zip_msg_length example_messages_def msg_def)
  have b: "features (filter (\<lambda>r. date r \<noteq> None) example_messages) =
           Inr (features_of (map ?f (filter (\<lambda>r. date r \<noteq> None) example_messages)))"
    by (simp add: features_def msg_length_def zip_msg_length example_messages_def msg_def)
  show ?thesis
    using null_timestamp_excluded [where rs = example_messages and r = unparsed_message
        and fs = "features_of (map ?f example_messages)"
        and fs' = "features_of (map ?f (filter (\<lambda>r. date r \<noteq> None) example_messages))"]
      m d a b by simp
qed

section \<open>Ranking\<close>

lemma key_pos_le: "key_pos a \<le> key_pos b \<longleftrightarrow> best_order a b"
  by (auto simp: key_pos_def best_order_def less_eq_prod_def)

lemma key_neg_le: "key_neg a \<le> key_neg b \<longleftrightarrow> worst_order a b"
  by (auto simp: key_neg_def worst_order_def less_eq_prod_def)

lemma inj_key_pos: "inj key_pos"
  by (rule injI) (simp add: key_pos_def)

lemma inj_key_neg: "inj key_neg"
  by (rule injI) (simp add: key_neg_def)

lemma head_scan_subset: "set (head_scan n key seen rs) \<subseteq> set rs"
  by (induction rs arbitrary: seen) auto

lemma head_scan_sorted_wrt:
  "sorted_wrt R rs \<Longrightarrow> sorted_wrt R (head_scan n key seen rs)"
proof (induction rs arbitrary: seen)
  case Nil
  then show ?case by simp
next
  case (Cons r rs)
  then show ?case
    using head_scan_subset [of n key "key r # seen" rs] by auto
qed

lemma head_scan_filter:
  "filter (\<lambda>r. key r = m) (head_scan n key seen rs) =
     take (n - count_list seen m) (filter (\<lambda>r. key r = m) rs)"
proof (induction rs arbitrary: seen)
  case Nil
  then show ?case by simp
next
  case (Cons r rs)
  show ?case
  proof (cases "key r = m")
    case True
    show ?thesis
    proof (cases "count_list seen m < n")
      case lt: True
      then obtain j where j: "n - count_list seen m = Suc j" "n - Suc (count_list seen m) = j"
        by (metis Suc_diff_Suc)
      with True lt Cons [of "m # seen"] show ?thesis by simp
    next
      case False
      with True Cons [of "m # seen"] show ?thesis by simp
    qed
  next
    case False
    with Cons [of "key r # seen"] show ?thesis by simp
  qed
qed

lemma groupby_head_filter:
  "filter (\<lambda>r. key r = m) (groupby_head n key rs) = take n (filter (\<lambda>r. key r = m) rs)"
  by (simp add: groupby_head_def head_scan_filter)

lemma top_pos_sorted: "sorted_wrt best_order (top_pos ms)"
proof -
  have "sorted (map key_pos (top_pos ms))" by (simp add: top_pos_def)
  then show ?thesis by (simp add: sorted_map key_pos_le)
qed

lemma top_neg_sorted: "sorted_wrt worst_order (top_neg ms)"
proof -
  have "sorted (map key_neg (top_neg ms))" by (simp add: top_neg_def)
  then show ?thesis by (simp add: sorted_map key_neg_le)
qed

lemma top_pos_perm:
  assumes "mset ms' = mset ms"
  shows "top_pos ms' = top_pos ms"
  unfolding top_pos_def
proof (rule sort_key_inj_key_eq)
  show "mset ms' = mset (sort_key key_pos ms)"
    using assms by (simp only: mset_sort)
  show "inj_on key_pos (set ms')"
    by (rule inj_on_subset [OF inj_key_pos]) simp
  show "sorted (map key_pos (sort_key key_pos ms))"
    by (rule sorted_sort_key)
qed

lemma top_neg_perm:
  assumes "mset ms' = mset ms"
  shows "top_neg ms' = top_neg ms"
  unfolding top_neg_def
proof (rule sort_key_inj_key_eq)
  show "mset ms' = mset (sort_key key_neg ms)"
    using assms by (simp only: mset_sort)
  show "inj_on key_neg (set ms')"
    by (rule inj_on_subset [OF inj_key_neg]) simp
  show "sorted (map key_neg (sort_key key_neg ms))"
    by (rule sorted_sort_key)
qed

text \<open>
  Claim C2 (ranking tie-break and determinism). In the best and in the worst ranking,
  two rows of one month with equal score are in ascending order of employee (the same
  relation \<open>tie_break\<close> for both directions); the rankings follow \<open>best_order\<close> and
  \<open>worst_order\<close>; and the ranking is a function of the rows alone: the same rows in any
  order give the identical ordered output.
\<close>

theorem ranking_tie_break:
  "sorted_wrt tie_break (top_3_pos ms) \<and> sorted_wrt tie_break (top_3_neg ms) \<and>
   sorted_wrt best_order (top_3_pos ms) \<and> sorted_wrt worst_order (top_3_neg ms) \<and>
   (mset ms' = mset ms \<longrightarrow> top_3_pos ms' = top_3_pos ms \<and> top_3_neg ms' = top_3_neg ms)"
proof -
  have b: "sorted_wrt best_order (top_3_pos ms)"
    unfolding top_3_pos_def groupby_head_def
    by (rule head_scan_sorted_wrt) (rule top_pos_sorted)
  have w: "sorted_wrt worst_order (top_3_neg ms)"
    unfolding top_3_neg_def groupby_head_def
    by (rule head_scan_sorted_wrt) (rule top_neg_sorted)
  have "sorted_wrt tie_break (top_3_pos ms)"
    using b by (rule sorted_wrt_mono_rel [rotated]) (auto simp: best_order_def tie_break_def)
  moreover have "sorted_wrt tie_break (top_3_neg ms)"
    using w by (rule sorted_wrt_mono_rel [rotated]) (auto simp: worst_order_def tie_break_def)
  moreover have "top_3_pos ms' = top_3_pos ms \<and> top_3_neg ms' = top_3_neg ms"
    if "mset ms' = mset ms"
    using top_pos_perm [OF that] top_neg_perm [OF that]
    by (simp add: top_3_pos_def top_3_neg_def)
  ultimately show ?thesis using b w by blast
qed

theorem ranking_tie_break_witness:
  "top_3_pos (monthly_scores example_messages) =
     [\<lparr>employee = ''bob'', month = 0, score = - 1\<rparr>, \<lparr>employee = ''alice'', month = 0, score = - 3\<rparr>,
      \<lparr>employee = ''alice'', month = 1, score = - 1\<rparr>, \<lparr>employee = ''bob'', month = 1, score = - 1\<rparr>,
      \<lparr>employee = ''bob'', month = 2, score = - 1\<rparr>] \<and>
   top_3_neg (monthly_scores example_messages) =
     [\<lparr>employee = ''alice'', month = 0, score = - 3\<rparr>, \<lparr>employee = ''bob'', month = 0, score = - 1\<rparr>,
      \<lparr>employee = ''alice'', month = 1, score = - 1\<rparr>, \<lparr>employee = ''bob'', month = 1, score = - 1\<rparr>,
      \<lparr>employee = ''bob'', month = 2, score = - 1\<rparr>] \<and>
   sorted_wrt tie_break (top_3_pos (monthly_scores example_messages)) \<and>
   sorted_wrt tie_break (top_3_neg (monthly_scores example_messages)) \<and>
   mset (rev (monthly_scores example_messages)) = mset (monthly_scores example_messages) \<and>
   top_3_pos (rev (monthly_scores example_messages)) = top_3_pos (monthly_scores example_messages) \<and>
   top_3_neg (rev (monthly_scores example_messages)) = top_3_neg (monthly_scores example_messages)"
proof -
  have p: "top_3_pos (monthly_scores example_messages) =
     [\<lparr>employee = ''bob'', month = 0, score = - 1\<rparr>, \<lparr>employee = ''alice'', month = 0, score = - 3\<rparr>,
      \<lparr>employee = ''alice'', month = 1, score = - 1\<rparr>, \<lparr>employee = ''bob'', month = 1, score = - 1\<rparr>,
      \<lparr>employee = ''bob'', month = 2, score = - 1\<rparr>]"
    by code_simp
  have n: "top_3_neg (monthly_scores example_messages) =
     [\<lparr>employee = ''alice'', month = 0, score = - 3\<rparr>, \<lparr>employee = ''bob'', month = 0, score = - 1\<rparr>,
      \<lparr>employee = ''alice'', month = 1, score = - 1\<rparr>, \<lparr>employee = ''bob'', month = 1, score = - 1\<rparr>,
      \<lparr>employee = ''bob'', month = 2, score = - 1\<rparr>]"
    by code_simp
  have m: "mset (rev (monthly_scores example_messages)) = mset (monthly_scores example_messages)"
    by simp
  show ?thesis
    using ranking_tie_break [of "monthly_scores example_messages" "rev (monthly_scores example_messages)"]
      p n m by blast
qed

lemma groupby_keys: "set (map fst (groupby key rs)) = {k. \<exists>r\<in>set rs. key r = Some k}"
proof -
  have "k \<in> set (map fst (groupby key rs)) \<longleftrightarrow> (\<exists>r\<in>set rs. key r = Some k)" for k
  proof -
    have "k \<in> set (map fst (groupby key rs)) \<longleftrightarrow> (\<exists>g. (k, g) \<in> set (groupby key rs))"
      by force
    also have "\<dots> \<longleftrightarrow> filter (\<lambda>r. key r = Some k) rs \<noteq> []"
      by (simp add: groupby_member)
    also have "\<dots> \<longleftrightarrow> (\<exists>r\<in>set rs. key r = Some k)"
      by (simp add: filter_empty_conv)
    finally show ?thesis .
  qed
  then show ?thesis by blast
qed

lemma monthly_scores_keys:
  "map (\<lambda>x. (employee x, month x)) (monthly_scores rs) = map fst (groupby employee_month rs)"
  by (simp add: monthly_scores_def comp_def case_prod_beta)

lemma employees_of_month:
  "length (filter (\<lambda>x. month x = m) (monthly_scores rs)) =
     card {e. \<exists>r\<in>set rs. sender r = Some e \<and> df_month r = Some m}"
proof -
  let ?ks = "map (\<lambda>x. (employee x, month x)) (monthly_scores rs)"
  have d: "distinct ?ks"
    unfolding monthly_scores_keys by (rule groupby_distinct)
  have s: "set ?ks = {k. \<exists>r\<in>set rs. employee_month r = Some k}"
    unfolding monthly_scores_keys by (rule groupby_keys)
  have "length (filter (\<lambda>x. month x = m) (monthly_scores rs)) =
        length (filter (\<lambda>k. snd k = m) ?ks)"
    by (simp add: filter_map comp_def)
  also have "\<dots> = card (set (filter (\<lambda>k. snd k = m) ?ks))"
    by (rule distinct_card [symmetric]) (rule distinct_filter [OF d])
  also have "set (filter (\<lambda>k. snd k = m) ?ks) =
             (\<lambda>e. (e, m)) ` {e. \<exists>r\<in>set rs. sender r = Some e \<and> df_month r = Some m}"
    unfolding set_filter s by (auto simp: employee_month_eq image_iff)
  also have "card \<dots> = card {e. \<exists>r\<in>set rs. sender r = Some e \<and> df_month r = Some m}"
    by (rule card_image) (simp add: inj_on_def)
  finally show ?thesis .
qed

text \<open>
  Claim C9 (top-K shortfall). For every month \<open>m\<close>, the rankings hold
  \<open>min 3 n\<close> rows of month \<open>m\<close>, where \<open>n\<close> is the number of rows of \<open>m\<close> in the scores;
  the same holds for every \<open>k\<close> in place of 3; and the monthly scores have one row of
  month \<open>m\<close> for each employee with a message in \<open>m\<close>.
\<close>

theorem top_k_shortfall:
  "length (filter (\<lambda>x. month x = m) (top_3_pos ms)) = min 3 (length (filter (\<lambda>x. month x = m) ms)) \<and>
   length (filter (\<lambda>x. month x = m) (top_3_neg ms)) = min 3 (length (filter (\<lambda>x. month x = m) ms)) \<and>
   length (filter (\<lambda>x. month x = m) (groupby_head k month (top_pos ms))) =
     min k (length (filter (\<lambda>x. month x = m) ms)) \<and>
   length (filter (\<lambda>x. month x = m) (groupby_head k month (top_neg ms))) =
     min k (length (filter (\<lambda>x. month x = m) ms)) \<and>
   length (filter (\<lambda>x. month x = m) (monthly_scores rs)) =
     card {e. \<exists>r\<in>set rs. sender r = Some e \<and> df_month r = Some m}"
proof -
  have p: "length (filter (\<lambda>x. month x = m) (top_pos ms)) = length (filter (\<lambda>x. month x = m) ms)"
    by (simp add: top_pos_def filter_sort)
  have n: "length (filter (\<lambda>x. month x = m) (top_neg ms)) = length (filter (\<lambda>x. month x = m) ms)"
    by (simp add: top_neg_def filter_sort)
  show ?thesis
    unfolding top_3_pos_def top_3_neg_def groupby_head_filter length_take p n
    using employees_of_month [of m rs] by (simp add: min.commute)
qed

theorem top_k_shortfall_witness:
  "length (filter (\<lambda>x. month x = 0) (monthly_scores example_messages)) = 2 \<and>
   length (filter (\<lambda>x. month x = 0) (top_3_pos (monthly_scores example_messages))) = 2 \<and>
   length (filter (\<lambda>x. month x = 0) (top_3_neg (monthly_scores example_messages))) = 2"
proof -
  have "length (filter (\<lambda>x. month x = 0) (monthly_scores example_messages)) = 2"
    by code_simp
  then show ?thesis
    using top_k_shortfall [of 0 "monthly_scores example_messages"] by simp
qed

section \<open>The bounded lookback and the two-pointer scan\<close>

lemma advance_bounds: "lo \<le> hi \<Longrightarrow> lo \<le> advance W t hi lo \<and> advance W t hi lo \<le> hi"
proof (induction W t hi lo rule: advance.induct)
  case (1 W t hi lo)
  then show ?case
    by (subst (1 2) advance.simps) auto
qed

lemma advance_far:
  "(\<forall>j<lo. far W t hi j) \<Longrightarrow> \<forall>j<advance W t hi lo. far W t hi j"
proof (induction W t hi lo rule: advance.induct)
  case (1 W t hi lo)
  show ?case
  proof (cases "lo < hi \<and> (t ! hi - t ! lo) div ns_per_day > W")
    case True
    then have "far W t hi lo" by (simp add: far_def)
    with "1.prems" have "\<forall>j<lo + 1. far W t hi j"
      by (auto simp: less_Suc_eq)
    with "1.IH" True have "\<forall>j<advance W t hi (lo + 1). far W t hi j" by blast
    with True show ?thesis by (subst advance.simps) simp
  next
    case False
    with "1.prems" show ?thesis by (subst advance.simps) auto
  qed
qed

lemma advance_stops:
  "0 \<le> W \<Longrightarrow> lo \<le> hi \<Longrightarrow> \<not> far W t hi (advance W t hi lo)"
proof (induction W t hi lo rule: advance.induct)
  case (1 W t hi lo)
  show ?case
  proof (cases "lo < hi \<and> (t ! hi - t ! lo) div ns_per_day > W")
    case True
    with "1.IH" "1.prems" have "\<not> far W t hi (advance W t hi (lo + 1))" by simp
    with True show ?thesis by (subst advance.simps) simp
  next
    case False
    have "advance W t hi lo = lo" using False by (subst advance.simps) auto
    moreover have "\<not> far W t hi lo"
    proof (cases "lo < hi")
      case True
      with False show ?thesis by (simp add: far_def)
    next
      case False
      with "1.prems" have "lo = hi" by simp
      with "1.prems" show ?thesis by (simp add: far_def)
    qed
    ultimately show ?thesis by simp
  qed
qed

lemma far_mono_left:
  assumes "sorted t" and "i \<le> i'" and "i' < length t" and "far W t i j"
  shows "far W t i' j"
proof -
  from assms have "t ! i \<le> t ! i'" by (simp add: sorted_iff_nth_mono)
  then have "(t ! i - t ! j) div ns_per_day \<le> (t ! i' - t ! j) div ns_per_day"
    using ns_per_day_pos by (intro zdiv_mono1) auto
  with assms(4) show ?thesis by (simp add: far_def)
qed

lemma far_mono_right:
  assumes "sorted t" and "j' \<le> j" and "j < length t" and "far W t i j"
  shows "far W t i j'"
proof -
  from assms have "t ! j' \<le> t ! j" by (simp add: sorted_iff_nth_mono)
  then have "(t ! i - t ! j) div ns_per_day \<le> (t ! i - t ! j') div ns_per_day"
    using ns_per_day_pos by (intro zdiv_mono1) auto
  with assms(4) show ?thesis by (simp add: far_def)
qed

lemma near_count_card:
  assumes "i < length t"
  shows "near_count W t i = card {j. j \<le> i \<and> near W (t ! i) (t ! j)}"
proof -
  have "near_count W t i = card {j. j < length (take (i + 1) t) \<and> near W (t ! i) (take (i + 1) t ! j)}"
    unfolding near_count_def by (rule length_filter_conv_card)
  also have "{j. j < length (take (i + 1) t) \<and> near W (t ! i) (take (i + 1) t ! j)} =
             {j. j \<le> i \<and> near W (t ! i) (t ! j)}"
    using assms by auto
  finally show ?thesis .
qed

lemma near_count_window:
  assumes "sorted t" and "hi < length t" and "lo \<le> hi"
    and far: "\<forall>j<lo. far W t hi j" and stop: "\<not> far W t hi lo"
  shows "near_count W t hi = hi - lo + 1"
proof -
  have "near W (t ! hi) (t ! j) \<longleftrightarrow> lo \<le> j" if "j \<le> hi" for j
  proof -
    from that assms have le: "t ! j \<le> t ! hi" by (simp add: sorted_iff_nth_mono)
    show ?thesis
    proof (cases "lo \<le> j")
      case True
      have "\<not> far W t hi j"
      proof
        assume "far W t hi j"
        with assms(1) True have "far W t hi lo"
          using \<open>j \<le> hi\<close> assms(2) by (intro far_mono_right [of t lo j W hi]) auto
        with stop show False by simp
      qed
      with le True show ?thesis by (simp add: near_below far_def not_less)
    next
      case False
      then have "far W t hi j" using far by simp
      with le False show ?thesis by (simp add: near_below far_def not_less)
    qed
  qed
  then have "{j. j \<le> hi \<and> near W (t ! hi) (t ! j)} = {lo..hi}"
    by auto
  with assms(2,3) show ?thesis
    by (simp add: near_count_card)
qed

lemma two_pointer_iff:
  "sorted t \<Longrightarrow> 0 \<le> W \<Longrightarrow> lo \<le> hi \<Longrightarrow>
   (\<forall>j<lo. \<forall>i. hi \<le> i \<and> i < length t \<longrightarrow> far W t i j) \<Longrightarrow>
   two_pointer W T t lo hi \<longleftrightarrow> (\<exists>i. hi \<le> i \<and> i < length t \<and> T \<le> int (near_count W t i))"
proof (induction W T t lo hi rule: two_pointer.induct)
  case (1 W T t lo hi)
  note sorted = "1.prems"(1) and W = "1.prems"(2) and le = "1.prems"(3) and far = "1.prems"(4)
  show ?case
  proof (cases "hi < length t")
    case False
    then show ?thesis by (subst two_pointer.simps) auto
  next
    case True
    define lo' where "lo' = advance W t hi lo"
    have b: "lo \<le> lo'" "lo' \<le> hi"
      using advance_bounds [OF le, of W t] by (simp_all add: lo'_def)
    have "\<forall>j<lo. far W t hi j" using far True by auto
    then have far': "\<forall>j<lo'. far W t hi j"
      unfolding lo'_def by (rule advance_far)
    have stop: "\<not> far W t hi lo'"
      unfolding lo'_def using W le by (rule advance_stops)
    have cnt: "near_count W t hi = hi - lo' + 1"
      using sorted True b(2) far' stop by (rule near_count_window)
    show ?thesis
    proof (cases "T \<le> int (hi - lo' + 1)")
      case ge: True
      then have "two_pointer W T t lo hi"
        using True by (subst two_pointer.simps) (simp add: lo'_def Let_def)
      moreover have "\<exists>i. hi \<le> i \<and> i < length t \<and> T \<le> int (near_count W t i)"
        using True ge cnt by (intro exI [of _ hi]) simp
      ultimately show ?thesis by simp
    next
      case lt: False
      have inv: "\<forall>j<lo'. \<forall>i. hi + 1 \<le> i \<and> i < length t \<longrightarrow> far W t i j"
      proof (intro allI impI)
        fix j i assume "j < lo'" and i: "hi + 1 \<le> i \<and> i < length t"
        with far' have "far W t hi j" by blast
        with sorted i show "far W t i j"
          by (intro far_mono_left [of t hi i W j]) auto
      qed
      have le': "lo' \<le> hi + 1" using b(2) by simp
      have "two_pointer W T t lo hi = two_pointer W T t lo' (hi + 1)"
        using True lt by (subst two_pointer.simps) (simp add: lo'_def Let_def)
      also have "\<dots> \<longleftrightarrow> (\<exists>i. hi + 1 \<le> i \<and> i < length t \<and> T \<le> int (near_count W t i))"
        using True lo'_def lt sorted W le' inv by (rule "1.IH")
      also have "\<dots> \<longleftrightarrow> (\<exists>i. hi \<le> i \<and> i < length t \<and> T \<le> int (near_count W t i))"
      proof
        assume "\<exists>i. hi + 1 \<le> i \<and> i < length t \<and> T \<le> int (near_count W t i)"
        then obtain i where "hi + 1 \<le> i" "i < length t" "T \<le> int (near_count W t i)" by blast
        moreover from this have "hi \<le> i" by simp
        ultimately show "\<exists>i. hi \<le> i \<and> i < length t \<and> T \<le> int (near_count W t i)" by blast
      next
        assume "\<exists>i. hi \<le> i \<and> i < length t \<and> T \<le> int (near_count W t i)"
        then obtain i where i: "hi \<le> i" "i < length t" "T \<le> int (near_count W t i)" by blast
        have "i \<noteq> hi" using i(3) lt cnt by auto
        with i(1) have "hi + 1 \<le> i" by simp
        with i show "\<exists>i. hi + 1 \<le> i \<and> i < length t \<and> T \<le> int (near_count W t i)" by blast
      qed
      finally show ?thesis .
    qed
  qed
qed

text \<open>
  Claim C4 (refinement equivalence of the scanner). On every sorted sequence of
  timestamps, the scan of the notebook, which counts among the eleven most recent
  entries only, takes the same decision as the two-pointer sliding window with window 30
  and threshold 4, and as the check of all windows \<open>burst\<close>.
\<close>

theorem scan_refines_two_pointer:
  assumes "sorted t"
  shows "flagged 30 4 (map Some t) = two_pointer 30 4 t 0 0 \<and>
         flagged 30 4 (map Some t) = burst 30 4 (mset t)"
proof -
  have "two_pointer 30 4 t 0 0 \<longleftrightarrow> (\<exists>i. 0 \<le> i \<and> i < length t \<and> 4 \<le> int (near_count 30 t i))"
    using assms by (intro two_pointer_iff) simp_all
  moreover have "flagged 30 4 (map Some t) \<longleftrightarrow> (\<exists>i<length t. 4 \<le> int (near_count 30 t i))"
    using assms by (intro flagged_sorted) simp_all
  moreover have "flagged 30 4 (map Some t) \<longleftrightarrow> burst 30 4 (mset t)"
    using flagged_sorted_burst [OF assms, of 4 30] by simp
  ultimately show ?thesis by simp
qed

theorem scan_refines_two_pointer_witness:
  "sorted [1 * ns_per_day, 5 * ns_per_day, 10 * ns_per_day, 20 * ns_per_day, 31 * ns_per_day] \<and>
   flagged 30 4 (map Some [1 * ns_per_day, 5 * ns_per_day, 10 * ns_per_day, 20 * ns_per_day, 31 * ns_per_day]) \<and>
   two_pointer 30 4 [1 * ns_per_day, 5 * ns_per_day, 10 * ns_per_day, 20 * ns_per_day, 31 * ns_per_day] 0 0"
proof -
  have s: "sorted [1 * ns_per_day, 5 * ns_per_day, 10 * ns_per_day, 20 * ns_per_day, 31 * ns_per_day]"
    by (simp add: ns_per_day_def)
  have t: "two_pointer 30 4 [1 * ns_per_day, 5 * ns_per_day, 10 * ns_per_day, 20 * ns_per_day, 31 * ns_per_day] 0 0"
    by code_simp
  show ?thesis
    using scan_refines_two_pointer [OF s] s t by blast
qed

text \<open>
  The bound of eleven entries is enough because the threshold is 4. With a threshold of
  12 the two scans differ on twelve messages at the same time.
\<close>

lemma lookback_bound_matters:
  "\<not> flagged 30 12 (map Some (replicate 12 0)) \<and> two_pointer 30 12 (replicate 12 0) 0 0"
  by code_simp

section \<open>Average message length\<close>

text \<open>
  Claim C6 (avg_length fallback) at three inputs. A group with the bodies \<open>abcd\<close> and
  missing gets the mean 4 of the present length, not the mean 2 that counts the missing
  body as length 0, and \<open>msg_count = 1\<close>. A group whose only message has no body, in a
  frame where a message of bob has one, gets \<open>avg_length = None\<close> (NaN), not 0, and
  \<open>msg_count = 0\<close>. When no message of the frame has a body, the cell raises
  AttributeError and there is no feature table.
\<close>

theorem avg_length_missing_body:
  "features [body_message, no_body_message] =
     Inr [\<lparr>employee = ''alice'', month = 484, score = 0, avg_length = Some 4, msg_count = 1\<rparr>] \<and>
   features [msg ''bob'' 14739 Neutral, no_body_message] =
     Inr [\<lparr>employee = ''alice'', month = 484, score = 0, avg_length = None, msg_count = 0\<rparr>,
          \<lparr>employee = ''bob'', month = 484, score = 0, avg_length = Some 4, msg_count = 1\<rparr>] \<and>
   features [no_body_message] = Inl AttributeError"
  by code_simp

end
